theory Spec2Isabelle
  imports Main "HOL-Library.Word"
begin

section \<open>Data model\<close>

text \<open>
  The scripts under \<^verbatim>\<open>src/scripts\<close> read client database files: a 20-byte header,
  fixed-width records of little-endian 32-bit words, and a trailing block of
  null-terminated strings. A Python \<^verbatim>\<open>bytes\<close> value is a list of 8-bit words, a Python
  \<^verbatim>\<open>int\<close> is an \<open>int\<close> (a \<open>nat\<close> where it is a count taken from the header), and a Python
  \<^verbatim>\<open>str\<close> is the list of its Unicode code points, so that \<open>length\<close> is Python's \<^verbatim>\<open>len\<close>.
\<close>

type_synonym byte = "8 word"
type_synonym ustr = "nat list"

datatype py_error = ValueError | StructError | IndexError | KeyError

text \<open>A string literal of the source, as code points.\<close>

definition lit :: "string \<Rightarrow> ustr" where
  "lit s = map of_char s"

text \<open>The byte string literal \<^verbatim>\<open>b'WDBC'\<close>.\<close>

definition WDBC :: "byte list" where
  "WDBC = [0x57, 0x44, 0x42, 0x43]"

subsection \<open>\<^verbatim>\<open>struct.unpack\<close>\<close>

text \<open>
  \<^verbatim>\<open>struct.unpack('<I', b)[0]\<close> on a slice \<open>b\<close> of four bytes. The callers only pass
  slices of length four; on any other length Python raises \<^verbatim>\<open>struct.error\<close>.
\<close>

fun unpack_I :: "byte list \<Rightarrow> py_error + nat" where
  "unpack_I [b0, b1, b2, b3] =
     Inr (unat b0 + 256 * unat b1 + 65536 * unat b2 + 16777216 * unat b3)"
| "unpack_I _ = Inl StructError"

text \<open>The four-byte slice \<^verbatim>\<open>data[start:start+4]\<close> read as a word; 0 stands for a short slice
  only where the caller has excluded it.\<close>

definition word_at :: "byte list \<Rightarrow> nat \<Rightarrow> nat" where
  "word_at data start =
     (case unpack_I (take 4 (drop start data)) of Inr v \<Rightarrow> v | Inl _ \<Rightarrow> 0)"

text \<open>\<^verbatim>\<open>struct.unpack('<4sIIII', header)\<close>: the buffer must hold exactly 20 bytes.\<close>

definition unpack_header :: "byte list \<Rightarrow> py_error + (byte list \<times> nat \<times> nat \<times> nat \<times> nat)" where
  "unpack_header header =
     (if length header \<noteq> 20 then Inl StructError
      else Inr (take 4 header, word_at header 4, word_at header 8,
                word_at header 12, word_at header 16))"

text \<open>\<^verbatim>\<open>list(struct.unpack(f'<{field_count}I', record_data))\<close>: the buffer must hold exactly
  \<open>4 * field_count\<close> bytes.\<close>

definition unpack_words :: "nat \<Rightarrow> byte list \<Rightarrow> py_error + int list" where
  "unpack_words n data =
     (if length data \<noteq> 4 * n then Inl StructError
      else Inr (map (\<lambda>j. int (word_at data (4 * j))) [0..<n]))"

subsection \<open>The readers\<close>

text \<open>
  A file opened for reading is the list of the bytes not read yet: \<^verbatim>\<open>f.read(n)\<close> returns
  \<open>take n f\<close> and leaves \<open>drop n f\<close>.

  \<^verbatim>\<open>DBCReader\<close> of \<^verbatim>\<open>extract_spells_smart.py\<close>.
\<close>

record DBCReader =
  records :: "int list list"
  string_block :: "byte list"
  field_count :: nat

record DBCReader_smart = DBCReader +
  record_size :: nat

text \<open>The inner loop \<^verbatim>\<open>for j in range(field_count)\<close> of \<^verbatim>\<open>read_file\<close>: one value per field,
  0 where the slice would pass the end of the record's bytes.\<close>

definition read_fields :: "nat \<Rightarrow> byte list \<Rightarrow> int list" where
  "read_fields fc record_data =
     map (\<lambda>j. if j * 4 + 4 \<le> length record_data then int (word_at record_data (j * 4)) else 0)
       [0..<fc]"

text \<open>The loop \<^verbatim>\<open>for i in range(record_count)\<close>, with its \<^verbatim>\<open>break\<close> on a short read; it returns
  the records and the file as the loop leaves it.\<close>

fun read_records :: "nat \<Rightarrow> nat \<Rightarrow> nat \<Rightarrow> byte list \<Rightarrow> int list list \<times> byte list" where
  "read_records 0 fc rs f = ([], f)"
| "read_records (Suc n) fc rs f =
     (let record_data = take rs f; f' = drop rs f in
      if length record_data \<noteq> rs then ([], f')
      else (case read_records n fc rs f' of
              (recs, f'') \<Rightarrow> (read_fields fc record_data # recs, f'')))"

definition smart_read_file :: "byte list \<Rightarrow> py_error + DBCReader_smart" where
  "smart_read_file file =
     (case unpack_header (take 20 file) of
        Inl e \<Rightarrow> Inl e
      | Inr (magic, rc, fc, rs, string_block_size) \<Rightarrow>
          if magic \<noteq> WDBC then Inl ValueError
          else (case read_records rc fc rs (drop 20 file) of
                  (recs, f) \<Rightarrow>
                    Inr \<lparr>records = recs, string_block = take string_block_size f,
                         field_count = fc, record_size = rs\<rparr>))"

text \<open>\<^verbatim>\<open>DBCReader\<close> of \<^verbatim>\<open>extrac_game_data.py\<close>: the same two loops (the slice test
  is written \<^verbatim>\<open>offset + 4 <= len(record_data)\<close>), and the record count is kept.\<close>

record DBCReader_gd = DBCReader_smart +
  record_count :: nat

definition gd_read_file :: "byte list \<Rightarrow> py_error + DBCReader_gd" where
  "gd_read_file file =
     (case unpack_header (take 20 file) of
        Inl e \<Rightarrow> Inl e
      | Inr (magic, rc, fc, rs, string_block_size) \<Rightarrow>
          if magic \<noteq> WDBC then Inl ValueError
          else (case read_records rc fc rs (drop 20 file) of
                  (recs, f) \<Rightarrow>
                    Inr \<lparr>records = recs, string_block = take string_block_size f,
                         field_count = fc, record_size = rs, record_count = rc\<rparr>))"

text \<open>
  \<^verbatim>\<open>DBCReader\<close> of \<^verbatim>\<open>extract_spells.py\<close>: every record is unpacked in one call, which
  raises \<^verbatim>\<open>struct.error\<close> unless the slice read holds exactly \<open>4 * field_count\<close> bytes,
  and resolved strings are kept in a dictionary.
\<close>

record DBCReader_es = DBCReader +
  string_cache :: "int \<rightharpoonup> ustr"

fun es_read_records ::
  "nat \<Rightarrow> nat \<Rightarrow> nat \<Rightarrow> byte list \<Rightarrow> py_error + (int list list \<times> byte list)" where
  "es_read_records 0 fc rs f = Inr ([], f)"
| "es_read_records (Suc n) fc rs f =
     (let record_data = take rs f; f' = drop rs f in
      case unpack_words fc record_data of
        Inl e \<Rightarrow> Inl e
      | Inr rec \<Rightarrow>
          (case es_read_records n fc rs f' of
             Inl e \<Rightarrow> Inl e
           | Inr (recs, f'') \<Rightarrow> Inr (rec # recs, f'')))"

definition es_read_file :: "byte list \<Rightarrow> py_error + DBCReader_es" where
  "es_read_file file =
     (case unpack_header (take 20 file) of
        Inl e \<Rightarrow> Inl e
      | Inr (magic, rc, fc, rs, string_block_size) \<Rightarrow>
          if magic \<noteq> WDBC then Inl ValueError
          else (case es_read_records rc fc rs (drop 20 file) of
                  Inl e \<Rightarrow> Inl e
                | Inr (recs, f) \<Rightarrow>
                    Inr \<lparr>records = recs, string_block = take string_block_size f,
                         field_count = fc, string_cache = Map.empty\<rparr>))"

subsection \<open>Strings of the heap\<close>

text \<open>
  \<^verbatim>\<open>bytes.decode('utf-8', errors='ignore')\<close>, on the byte values. A well-formed sequence
  gives its code point. An invalid start byte is dropped; a sequence broken by an invalid
  continuation byte loses the bytes before that byte, and decoding resumes at it; a
  sequence cut off by the end of the input is dropped. Overlong forms, surrogates and code
  points above \<open>0x10FFFF\<close> are invalid.
\<close>

definition is_cont :: "nat \<Rightarrow> bool" where
  "is_cont b = (0x80 \<le> b \<and> b < 0xC0)"

fun utf8_decode :: "nat list \<Rightarrow> ustr" where
  "utf8_decode [] = []"
| "utf8_decode (b0 # bs) =
     (if b0 < 0x80 then b0 # utf8_decode bs
      else if b0 < 0xC2 then utf8_decode bs
      else if b0 < 0xE0 then
        (case bs of
           [] \<Rightarrow> []
         | b1 # r1 \<Rightarrow>
             if is_cont b1 then ((b0 - 0xC0) * 64 + (b1 - 0x80)) # utf8_decode r1
             else utf8_decode bs)
      else if b0 < 0xF0 then
        (case bs of
           [] \<Rightarrow> []
         | b1 # r1 \<Rightarrow>
             if \<not> is_cont b1 \<or> (b0 = 0xE0 \<and> b1 < 0xA0) \<or> (b0 = 0xED \<and> 0xA0 \<le> b1)
             then utf8_decode bs
             else (case r1 of
                     [] \<Rightarrow> []
                   | b2 # r2 \<Rightarrow>
                       if is_cont b2
                       then (((b0 - 0xE0) * 64 + (b1 - 0x80)) * 64 + (b2 - 0x80)) # utf8_decode r2
                       else utf8_decode r1))
      else if b0 < 0xF5 then
        (case bs of
           [] \<Rightarrow> []
         | b1 # r1 \<Rightarrow>
             if \<not> is_cont b1 \<or> (b0 = 0xF0 \<and> b1 < 0x90) \<or> (b0 = 0xF4 \<and> 0x90 \<le> b1)
             then utf8_decode bs
             else (case r1 of
                     [] \<Rightarrow> []
                   | b2 # r2 \<Rightarrow>
                       if \<not> is_cont b2 then utf8_decode r1
                       else (case r2 of
                               [] \<Rightarrow> []
                             | b3 # r3 \<Rightarrow>
                                 if is_cont b3
                                 then ((((b0 - 0xF0) * 64 + (b1 - 0x80)) * 64 + (b2 - 0x80)) * 64
                                         + (b3 - 0x80)) # utf8_decode r3
                                 else utf8_decode r2)))
      else utf8_decode bs)"

definition decode_ignore :: "byte list \<Rightarrow> ustr" where
  "decode_ignore bs = utf8_decode (map unat bs)"

text \<open>\<^verbatim>\<open>b.find(b'\x00', start)\<close>: the lowest index at or after \<open>start\<close> that holds a null
  byte, or -1; a negative \<open>start\<close> counts from the end.\<close>

definition find_null :: "byte list \<Rightarrow> int \<Rightarrow> int" where
  "find_null b start =
     (let n = int (length b);
          s = (if start < 0 then max 0 (n + start) else start);
          rest = drop (nat s) b;
          k = length (takeWhile (\<lambda>y. y \<noteq> 0) rest)
      in if k < length rest then s + int k else -1)"

text \<open>The slice \<^verbatim>\<open>xs[i:j]\<close>.\<close>

definition slice_index :: "nat \<Rightarrow> int \<Rightarrow> nat" where
  "slice_index n i = (if i < 0 then nat (max 0 (int n + i)) else min n (nat i))"

definition py_slice :: "'a list \<Rightarrow> int \<Rightarrow> int \<Rightarrow> 'a list" where
  "py_slice xs i j =
     (let a = slice_index (length xs) i; b = slice_index (length xs) j
      in take (b - a) (drop a xs))"

text \<open>\<^verbatim>\<open>get_string\<close> of \<^verbatim>\<open>extract_spells_smart.py\<close>.\<close>

definition smart_get_string :: "byte list \<Rightarrow> int \<Rightarrow> ustr" where
  "smart_get_string sb offset =
     (if offset < int (length sb) then
        (let end = find_null sb offset in
         if end \<noteq> -1 then decode_ignore (py_slice sb offset end) else [])
      else [])"

text \<open>\<^verbatim>\<open>get_string\<close> of \<^verbatim>\<open>extrac_game_data.py\<close>; decoding with \<^verbatim>\<open>errors='ignore'\<close> does not
  raise, so the \<^verbatim>\<open>except\<close> branch is never taken.\<close>

definition gd_get_string :: "byte list \<Rightarrow> int \<Rightarrow> ustr" where
  "gd_get_string sb offset =
     (if offset \<ge> int (length sb) then []
      else let end = find_null sb offset in
           if end = -1 then [] else decode_ignore (py_slice sb offset end))"

text \<open>\<^verbatim>\<open>get_string\<close> of \<^verbatim>\<open>extract_spells.py\<close>: the result and the reader with its cache.\<close>

definition es_get_string :: "DBCReader_es \<Rightarrow> int \<Rightarrow> ustr \<times> DBCReader_es" where
  "es_get_string r offset =
     (case string_cache r offset of
        Some s \<Rightarrow> (s, r)
      | None \<Rightarrow>
          if offset \<ge> int (length (string_block r)) \<or> offset < 0 then ([], r)
          else let end = find_null (string_block r) offset in
               if end = -1 then ([], r)
               else let result = decode_ignore (py_slice (string_block r) offset end)
                    in (result, r\<lparr>string_cache := (string_cache r)(offset \<mapsto> result)\<rparr>))"

text \<open>Indexing a list, \<^verbatim>\<open>xs[i]\<close>: a negative index counts from the end, and an index
  outside the list raises \<^verbatim>\<open>IndexError\<close>.\<close>

definition py_index :: "'a list \<Rightarrow> int \<Rightarrow> py_error + 'a" where
  "py_index xs i =
     (let k = (if i < 0 then i + int (length xs) else i)
      in if k < 0 \<or> int (length xs) \<le> k then Inl IndexError else Inr (xs ! nat k))"

text \<open>The invariant of the string cache of \<^verbatim>\<open>extract_spells.py\<close>: an entry holds what
  resolving its offset computes. It holds of the empty cache a reader starts with, and
  \<open>es_get_string\<close> keeps it.\<close>

definition cache_ok :: "DBCReader_es \<Rightarrow> bool" where
  "cache_ok r =
     (\<forall>off s. string_cache r off = Some s \<longrightarrow>
        0 \<le> off \<and> s = smart_get_string (string_block r) off)"

text \<open>The reader of \<^verbatim>\<open>extract_spells.py\<close> after it has resolved a list of offsets, one
  after the other.\<close>

definition after_lookups :: "DBCReader_es \<Rightarrow> int list \<Rightarrow> DBCReader_es" where
  "after_lookups r offs = foldl (\<lambda>r' off. snd (es_get_string r' off)) r offs"

subsection \<open>The writer's side of the round trip\<close>

text \<open>
  The repository only reads the format. For the round trip these functions build the
  buffer the specification describes in its section 6: the tag, four little-endian
  counts, the records as little-endian 32-bit words, and the heap; and the UTF-8 bytes of
  a string.
\<close>

definition le32_bytes :: "nat \<Rightarrow> byte list" where
  "le32_bytes w = [of_nat w, of_nat (w div 256), of_nat (w div 65536), of_nat (w div 16777216)]"

definition row_bytes :: "nat list \<Rightarrow> byte list" where
  "row_bytes row = concat (map le32_bytes row)"

definition table_bytes :: "nat \<Rightarrow> nat list list \<Rightarrow> byte list \<Rightarrow> byte list" where
  "table_bytes fc rows heap =
     WDBC @ le32_bytes (length rows) @ le32_bytes fc @ le32_bytes (4 * fc)
       @ le32_bytes (length heap) @ concat (map row_bytes rows) @ heap"

definition scalar_value :: "nat \<Rightarrow> bool" where
  "scalar_value c = (c < 0x110000 \<and> \<not> (0xD800 \<le> c \<and> c < 0xE000))"

definition utf8_encode_cp :: "nat \<Rightarrow> nat list" where
  "utf8_encode_cp c =
     (if c < 0x80 then [c]
      else if c < 0x800 then [0xC0 + c div 64, 0x80 + c mod 64]
      else if c < 0x10000 then [0xE0 + c div 4096, 0x80 + c div 64 mod 64, 0x80 + c mod 64]
      else [0xF0 + c div 262144, 0x80 + c div 4096 mod 64, 0x80 + c div 64 mod 64,
            0x80 + c mod 64])"

definition utf8_encode :: "ustr \<Rightarrow> byte list" where
  "utf8_encode s = map of_nat (concat (map utf8_encode_cp s))"

subsection \<open>Text: \<^verbatim>\<open>str\<close> methods and the regular expressions of the scripts\<close>



text \<open>
  The class \<^verbatim>\<open>\w\<close> of a \<^verbatim>\<open>str\<close> pattern: the ASCII letters, digits and underscore, and
  the alphanumeric characters of Unicode beyond ASCII. The table of the latter belongs to
  Python, not to the repository: it is the parameter \<open>W\<close>.
\<close>

definition ascii_word :: "nat \<Rightarrow> bool" where
  "ascii_word c =
     ((0x30 \<le> c \<and> c \<le> 0x39) \<or> (0x41 \<le> c \<and> c \<le> 0x5A) \<or> (0x61 \<le> c \<and> c \<le> 0x7A) \<or>
      c = 0x5F)"

definition is_word :: "nat set \<Rightarrow> nat \<Rightarrow> bool" where
  "is_word W c = (if c < 0x80 then ascii_word c else c \<in> W)"

text \<open>\<^verbatim>\<open>re.sub(pattern, repl, s)\<close> for a pattern that is a literal text \<open>t # ts\<close> (the
  patterns \<^verbatim>\<open>\$s1\<close> to \<^verbatim>\<open>\$d\<close>): every match, left to right, without overlap.\<close>

function sub_lit :: "nat \<Rightarrow> ustr \<Rightarrow> ustr \<Rightarrow> ustr \<Rightarrow> ustr" where
  "sub_lit t ts repl [] = []"
| "sub_lit t ts repl (c # cs) =
     (if c = t \<and> take (length ts) cs = ts
      then repl @ sub_lit t ts repl (drop (length ts) cs)
      else c # sub_lit t ts repl cs)"
  by pat_completeness auto
termination
  by (relation "measure (\<lambda>(t, ts, repl, s). length s)") auto


text \<open>The decimal digits of a number.\<close>

function decimal :: "nat \<Rightarrow> ustr" where
  "decimal n = (if n < 10 then [0x30 + n] else decimal (n div 10) @ [0x30 + n mod 10])"
  by pat_completeness auto
termination
  by (relation "measure id") auto

declare decimal.simps [simp del]

text \<open>
  \<^verbatim>\<open>f'{duration_ms / 1000:.0f}'\<close>. The duration passed to \<^verbatim>\<open>parse_description\<close> is an
  entry of the duration table, unpacked with \<^verbatim>\<open><I\<close>, or 0: a 32-bit word. The quotient
  is a float, and the format rounds it to the nearest integer, a tie to the even one.
  A word is a float exactly, the float quotient is the exact quotient rounded to a
  float, and every tie \<open>k + 1/2\<close> below \<open>2^32 / 1000\<close> is a float that the other
  quotients miss by at least \<open>1/1000\<close>; so the float quotient lies on the same side of
  every tie as the exact one, and the result is the exact quotient rounded half to even.
\<close>

definition format_seconds :: "32 word \<Rightarrow> ustr" where
  "format_seconds duration_ms =
     (let q = unat duration_ms div 1000; r = unat duration_ms mod 1000
      in decimal (if r < 500 \<or> (r = 500 \<and> even q) then q else q + 1))"




text \<open>A dollar sign directly in front of a placeholder token, as in \<^verbatim>\<open>$$a\<close>.\<close>

fun dollar_before_token :: "nat set \<Rightarrow> ustr \<Rightarrow> bool" where
  "dollar_before_token W (a # b # c # s) =
     ((a = 0x24 \<and> b = 0x24 \<and> is_word W c) \<or> dollar_before_token W (b # c # s))"
| "dollar_before_token W s = False"

text \<open>
  The known markers of \<^verbatim>\<open>parse_description\<close>, in the order of its passes, with the text
  after the dollar sign and the replacement; and the text after these seven passes.
\<close>

datatype marker = S1 | S2 | S3 | O1 | O2 | O3 | D

definition markers :: "marker list" where
  "markers = [S1, S2, S3, O1, O2, O3, D]"

fun marker_name :: "marker \<Rightarrow> ustr" where
  "marker_name S1 = lit ''s1''"
| "marker_name S2 = lit ''s2''"
| "marker_name S3 = lit ''s3''"
| "marker_name O1 = lit ''o1''"
| "marker_name O2 = lit ''o2''"
| "marker_name O3 = lit ''o3''"
| "marker_name D = lit ''d''"

fun marker_out :: "32 word \<Rightarrow> marker \<Rightarrow> ustr" where
  "marker_out ms S1 = lit ''X''"
| "marker_out ms S2 = lit ''Y''"
| "marker_out ms S3 = lit ''Z''"
| "marker_out ms O1 = lit ''X''"
| "marker_out ms O2 = lit ''Y''"
| "marker_out ms O3 = lit ''Z''"
| "marker_out ms D = (if ms > 0 then format_seconds ms @ lit '' sec'' else lit ''Z sec'')"

definition known_markers :: "ustr \<Rightarrow> 32 word \<Rightarrow> ustr" where
  "known_markers desc ms =
     foldl (\<lambda>s m. sub_lit 0x24 (marker_name m) (marker_out ms m) s) desc markers"

text \<open>
  A description as a list of pieces: plain text without dollar signs, a known marker, an
  unknown placeholder token (a dollar sign and a run of word characters that starts with
  no known marker), or a lone dollar sign; what a piece is in the input, and what the
  specification says it becomes.
\<close>

datatype piece = Text ustr | Known marker | Unknown ustr | Dollar

fun piece_in :: "piece \<Rightarrow> ustr" where
  "piece_in (Text t) = t"
| "piece_in (Known m) = 0x24 # marker_name m"
| "piece_in (Unknown w) = 0x24 # w"
| "piece_in Dollar = [0x24]"

fun piece_out :: "32 word \<Rightarrow> piece \<Rightarrow> ustr" where
  "piece_out ms (Text t) = t"
| "piece_out ms (Known m) = marker_out ms m"
| "piece_out ms (Unknown w) = lit ''X''"
| "piece_out ms Dollar = [0x24]"

text \<open>
  A list of pieces is well formed when each piece is what it is called and ends where the
  next one starts: after a lone dollar sign comes the end, another lone dollar sign or
  text that starts with no word character; after an unknown token the same or another
  unknown token, so that the run of word characters of the token is the whole token.
\<close>

fun after_dollar :: "nat set \<Rightarrow> piece list \<Rightarrow> bool" where
  "after_dollar W [] = True"
| "after_dollar W (Text t # ps) = (\<not> is_word W (hd t))"
| "after_dollar W (Dollar # ps) = True"
| "after_dollar W (Known m # ps) = False"
| "after_dollar W (Unknown w # ps) = False"

fun after_token :: "nat set \<Rightarrow> piece list \<Rightarrow> bool" where
  "after_token W [] = True"
| "after_token W (Text t # ps) = (\<not> is_word W (hd t))"
| "after_token W (Dollar # ps) = True"
| "after_token W (Known m # ps) = False"
| "after_token W (Unknown w # ps) = True"

fun well_formed :: "nat set \<Rightarrow> piece list \<Rightarrow> bool" where
  "well_formed W [] = True"
| "well_formed W (Text t # ps) = (t \<noteq> [] \<and> 0x24 \<notin> set t \<and> well_formed W ps)"
| "well_formed W (Known m # ps) = well_formed W ps"
| "well_formed W (Unknown w # ps) =
     (w \<noteq> [] \<and> list_all (is_word W) w \<and>
      list_all (\<lambda>m. take (length (marker_name m)) w \<noteq> marker_name m) markers \<and>
      after_token W ps \<and> well_formed W ps)"
| "well_formed W (Dollar # ps) = (after_dollar W ps \<and> well_formed W ps)"

subsection \<open>The schema definition\<close>

text \<open>
  \<^verbatim>\<open>get_spell_loc_indices\<close> of \<^verbatim>\<open>extract_spells.py\<close> reads an XML document. The parsed
  document is the input here: the \<^verbatim>\<open>Table\<close> elements below the root in document order,
  each with its \<^verbatim>\<open>Name\<close> attribute and its \<^verbatim>\<open>Field\<close> children, each of these with the three
  attributes the function reads (an attribute may be missing). Python's \<^verbatim>\<open>int\<close> on a
  string is the parameter \<open>py_int\<close>: the value, or \<open>None\<close> where it raises \<^verbatim>\<open>ValueError\<close>.
\<close>

record xml_field =
  attrib_Type :: "ustr option"
  attrib_ArraySize :: "ustr option"
  attrib_Name :: "ustr option"

record xml_table =
  table_Name :: "ustr option"
  table_fields :: "xml_field list"

text \<open>The body of the loop over the fields, on the running index and the dictionary.\<close>

definition loc_step ::
  "(ustr \<Rightarrow> int option) \<Rightarrow> xml_field \<Rightarrow> int \<times> (ustr \<rightharpoonup> int) \<Rightarrow>
   py_error + (int \<times> (ustr \<rightharpoonup> int))" where
  "loc_step py_int field st =
     (case st of (index, loc_map) \<Rightarrow>
        let field_type = (case attrib_Type field of None \<Rightarrow> [] | Some t \<Rightarrow> t) in
        case py_int (case attrib_ArraySize field of None \<Rightarrow> lit ''1'' | Some a \<Rightarrow> a) of
          None \<Rightarrow> Inl ValueError
        | Some array_size \<Rightarrow>
            (case attrib_Name field of
               None \<Rightarrow> Inl KeyError
             | Some name \<Rightarrow>
                 if field_type = lit ''loc'' then Inr (index + 8, loc_map(name \<mapsto> index))
                 else Inr (index + array_size, loc_map)))"

fun loc_loop ::
  "(ustr \<Rightarrow> int option) \<Rightarrow> xml_field list \<Rightarrow> int \<times> (ustr \<rightharpoonup> int) \<Rightarrow>
   py_error + (int \<times> (ustr \<rightharpoonup> int))" where
  "loc_loop py_int [] st = Inr st"
| "loc_loop py_int (field # rest) st =
     (case loc_step py_int field st of
        Inl e \<Rightarrow> Inl e
      | Inr st' \<Rightarrow> loc_loop py_int rest st')"

definition get_spell_loc_indices ::
  "(ustr \<Rightarrow> int option) \<Rightarrow> xml_table list \<Rightarrow> py_error + (ustr \<rightharpoonup> int)" where
  "get_spell_loc_indices py_int tables =
     (case find (\<lambda>t. table_Name t = Some (lit ''Spell'')) tables of
        None \<Rightarrow> Inl ValueError
      | Some spell_table \<Rightarrow>
          (case loc_loop py_int (table_fields spell_table) (0, Map.empty) of
             Inl e \<Rightarrow> Inl e
           | Inr (index, loc_map) \<Rightarrow> Inr loc_map))"

text \<open>The width of a field in the words of the specification: 8 for a localized block,
  the declared repeat count for any other field, 1 when none is declared.\<close>

definition field_width :: "(ustr \<Rightarrow> int option) \<Rightarrow> xml_field \<Rightarrow> int" where
  "field_width py_int field =
     (if attrib_Type field = Some (lit ''loc'') then 8
      else case attrib_ArraySize field of
             None \<Rightarrow> 1
           | Some a \<Rightarrow> (case py_int a of None \<Rightarrow> 0 | Some n \<Rightarrow> n))"

text \<open>A field the loop accepts: it has a name, and its repeat count, if declared, is a
  number.\<close>

definition field_ok :: "(ustr \<Rightarrow> int option) \<Rightarrow> xml_field \<Rightarrow> bool" where
  "field_ok py_int field =
     (attrib_Name field \<noteq> None \<and>
      (case attrib_ArraySize field of None \<Rightarrow> True | Some a \<Rightarrow> py_int a \<noteq> None))"

subsection \<open>Example inputs\<close>

text \<open>A file whose header declares one record of two fields in four bytes: the declared
  record size disagrees with the field count.\<close>

definition short_record_file :: "byte list" where
  "short_record_file =
     [0x57, 0x44, 0x42, 0x43,  1, 0, 0, 0,  2, 0, 0, 0,  4, 0, 0, 0,  0, 0, 0, 0,
      5, 0, 0, 0]"

text \<open>The scenario of the specification: two records of three fields, \<open>[[5,0,0],[6,4,0]]\<close>,
  and the heap \<^verbatim>\<open>AB\0CD\0\<close>; and the reader \<^verbatim>\<open>extract_spells.py\<close> builds from it.\<close>

definition scenario_heap :: "byte list" where
  "scenario_heap = [0x41, 0x42, 0, 0x43, 0x44, 0]"

definition scenario_file :: "byte list" where
  "scenario_file =
     [0x57, 0x44, 0x42, 0x43,  2, 0, 0, 0,  3, 0, 0, 0,  12, 0, 0, 0,  6, 0, 0, 0,
      5, 0, 0, 0,  0, 0, 0, 0,  0, 0, 0, 0,
      6, 0, 0, 0,  4, 0, 0, 0,  0, 0, 0, 0] @ scenario_heap"

definition scenario_reader :: DBCReader_es where
  "scenario_reader =
     \<lparr>records = [[5, 0, 0], [6, 4, 0]], string_block = scenario_heap, field_count = 3,
      string_cache = Map.empty\<rparr>"

text \<open>A heap as the format's files have it, starting with a null byte, here with an
  unterminated tail: \<^verbatim>\<open>\0AB\0CD\<close>.\<close>

definition open_heap_reader :: DBCReader_es where
  "open_heap_reader =
     \<lparr>records = [], string_block = [0, 0x41, 0x42, 0, 0x43, 0x44], field_count = 0,
      string_cache = Map.empty\<rparr>"

text \<open>A header that declares a ten-byte heap, with no byte after it; a file cut off in
  its second record; a file with another tag.\<close>

definition oversized_file :: "byte list" where
  "oversized_file =
     [0x57, 0x44, 0x42, 0x43,  0, 0, 0, 0,  0, 0, 0, 0,  0, 0, 0, 0,  10, 0, 0, 0]"

definition truncated_file :: "byte list" where
  "truncated_file =
     [0x57, 0x44, 0x42, 0x43,  2, 0, 0, 0,  1, 0, 0, 0,  4, 0, 0, 0,  0, 0, 0, 0,
      7, 0, 0, 0,  8, 0]"

definition bad_tag_file :: "byte list" where
  "bad_tag_file =
     [0x57, 0x44, 0x42, 0x32,  0, 0, 0, 0,  0, 0, 0, 0,  0, 0, 0, 0,  0, 0, 0, 0]"

text \<open>A file with one record whose header declares a heap of ten bytes and which holds
  three of them.\<close>

definition short_heap_file :: "byte list" where
  "short_heap_file =
     [0x57, 0x44, 0x42, 0x43,  1, 0, 0, 0,  1, 0, 0, 0,  4, 0, 0, 0,  10, 0, 0, 0,
      7, 0, 0, 0,  0x41, 0x42, 0]"

section \<open>Properties\<close>

subsection \<open>The lenient readers\<close>

lemma length_read_fields [simp]: "length (read_fields fc d) = fc"
  by (simp add: read_fields_def)

lemma read_fields_nth:
  "j < fc \<Longrightarrow>
   read_fields fc d ! j = (if j * 4 + 4 \<le> length d then int (word_at d (j * 4)) else 0)"
  by (simp add: read_fields_def)

lemma word_at_take_drop:
  "j + 4 \<le> rs \<Longrightarrow> word_at (take rs (drop k f)) j = word_at f (k + j)"
  by (simp add: word_at_def take_drop min_def add.commute)

lemma word_at_drop: "word_at (drop k f) j = word_at f (k + j)"
  by (simp add: word_at_def add.commute)

lemma read_records_width:
  "read_records n fc rs f = (recs, f') \<Longrightarrow> rec \<in> set recs \<Longrightarrow> length rec = fc"
  by (induction n arbitrary: f recs f') (auto simp: Let_def split: if_splits prod.splits)

lemma read_records_nth:
  "read_records n fc rs f = (recs, f') \<Longrightarrow> i < length recs \<Longrightarrow> j < fc \<Longrightarrow>
   recs ! i ! j = (if j * 4 + 4 \<le> rs then int (word_at f (i * rs + j * 4)) else 0)"
proof (induction n arbitrary: f recs f' i)
  case 0
  then show ?case by simp
next
  case (Suc n)
  show ?case
  proof (cases "length (take rs f) = rs")
    case False
    with Suc.prems show ?thesis by (auto simp: Let_def split: if_splits)
  next
    case True
    obtain recs0 f0 where r0: "read_records n fc rs (drop rs f) = (recs0, f0)"
      by (cases "read_records n fc rs (drop rs f)")
    with Suc.prems True have recs: "recs = read_fields fc (take rs f) # recs0"
      by (simp add: Let_def)
    show ?thesis
    proof (cases i)
      case 0
      with recs True Suc.prems(3) show ?thesis
        using word_at_take_drop [of "j * 4" rs 0 f] by (simp add: read_fields_nth)
    next
      case (Suc i')
      with Suc.prems recs have "i' < length recs0" by simp
      from Suc.IH [OF r0 this Suc.prems(3)] Suc recs show ?thesis
        by (simp add: word_at_def add.assoc add.commute add.left_commute)
    qed
  qed
qed

lemma read_records_length: "read_records n fc rs f = (recs, f') \<Longrightarrow> length recs \<le> n"
  by (induction n arbitrary: f recs f') (auto simp: Let_def split: if_splits prod.splits)

text \<open>Unfolding the record loop on a concrete count.\<close>

lemma read_records_unfold:
  "read_records n fc rs f =
     (if n = 0 then ([], f)
      else if length (take rs f) \<noteq> rs then ([], drop rs f)
      else (case read_records (n - 1) fc rs (drop rs f) of
              (recs, f'') \<Rightarrow> (read_fields fc (take rs f) # recs, f'')))"
  by (cases n) (simp_all add: Let_def)

lemma unpack_header_valid:
  "20 \<le> length file \<Longrightarrow>
   unpack_header (take 20 file) =
     Inr (take 4 file, word_at file 4, word_at file 8, word_at file 12, word_at file 16)"
  by (simp add: unpack_header_def word_at_def take_drop min_def)

text \<open>
  Claim C10 (record-width invariant). Whenever the header is accepted, the readers of
  \<^verbatim>\<open>extract_spells_smart.py\<close> and \<^verbatim>\<open>extrac_game_data.py\<close> return, without raising, a
  reader in which every stored record has exactly \<open>field_count\<close> entries, also when
  the declared record size is not \<open>4 * field_count\<close>: field \<open>j\<close> of row \<open>i\<close> is the
  little-endian word at its place in the file when its four bytes lie inside the record's
  slice, and 0 when they would pass its end.
\<close>

theorem record_width_invariant:
  assumes "20 \<le> length file" and "take 4 file = WDBC"
  shows "(\<exists>r. smart_read_file file = Inr r \<and> field_count r = word_at file 8 \<and>
              record_size r = word_at file 12 \<and>
              (\<forall>rec \<in> set (records r). length rec = field_count r) \<and>
              (\<forall>i<length (records r). \<forall>j<field_count r.
                 records r ! i ! j =
                   (if j * 4 + 4 \<le> record_size r
                    then int (word_at file (20 + i * record_size r + j * 4)) else 0))) \<and>
         (\<exists>r. gd_read_file file = Inr r \<and> field_count r = word_at file 8 \<and>
              record_size r = word_at file 12 \<and>
              (\<forall>rec \<in> set (records r). length rec = field_count r) \<and>
              (\<forall>i<length (records r). \<forall>j<field_count r.
                 records r ! i ! j =
                   (if j * 4 + 4 \<le> record_size r
                    then int (word_at file (20 + i * record_size r + j * 4)) else 0)))"
proof -
  obtain recs f' where rr:
    "read_records (word_at file 4) (word_at file 8) (word_at file 12) (drop 20 file) = (recs, f')"
    by (cases "read_records (word_at file 4) (word_at file 8) (word_at file 12) (drop 20 file)")
  have w: "\<forall>rec \<in> set recs. length rec = word_at file 8"
    using read_records_width [OF rr] by blast
  have n: "\<forall>i<length recs. \<forall>j<word_at file 8.
             recs ! i ! j =
               (if j * 4 + 4 \<le> word_at file 12
                then int (word_at file (20 + i * word_at file 12 + j * 4)) else 0)"
    using read_records_nth [OF rr] by (simp add: word_at_drop add.assoc)
  have s: "smart_read_file file =
             Inr \<lparr>records = recs, string_block = take (word_at file 16) f',
                  field_count = word_at file 8, record_size = word_at file 12\<rparr>"
    using assms rr by (simp add: smart_read_file_def unpack_header_valid)
  have g: "gd_read_file file =
             Inr \<lparr>records = recs, string_block = take (word_at file 16) f',
                  field_count = word_at file 8, record_size = word_at file 12,
                  record_count = word_at file 4\<rparr>"
    using assms rr by (simp add: gd_read_file_def unpack_header_valid)
  show ?thesis using w n by (simp add: s g)
qed

theorem record_width_invariant_witness:
  "20 \<le> length short_record_file \<and> take 4 short_record_file = WDBC \<and>
   smart_read_file short_record_file =
     Inr \<lparr>records = [[5, 0]], string_block = [], field_count = 2, record_size = 4\<rparr> \<and>
   gd_read_file short_record_file =
     Inr \<lparr>records = [[5, 0]], string_block = [], field_count = 2, record_size = 4,
          record_count = 1\<rparr> \<and>
   (\<exists>r. smart_read_file short_record_file = Inr r \<and>
        field_count r = word_at short_record_file 8 \<and>
        record_size r = word_at short_record_file 12 \<and>
        (\<forall>rec \<in> set (records r). length rec = field_count r) \<and>
        (\<forall>i<length (records r). \<forall>j<field_count r.
           records r ! i ! j =
             (if j * 4 + 4 \<le> record_size r
              then int (word_at short_record_file (20 + i * record_size r + j * 4)) else 0))) \<and>
   (\<exists>r. gd_read_file short_record_file = Inr r \<and>
        field_count r = word_at short_record_file 8 \<and>
        record_size r = word_at short_record_file 12 \<and>
        (\<forall>rec \<in> set (records r). length rec = field_count r) \<and>
        (\<forall>i<length (records r). \<forall>j<field_count r.
           records r ! i ! j =
             (if j * 4 + 4 \<le> record_size r
              then int (word_at short_record_file (20 + i * record_size r + j * 4)) else 0)))"
proof -
  have h: "20 \<le> length short_record_file" "take 4 short_record_file = WDBC"
    by (simp_all add: short_record_file_def WDBC_def)
  have s: "smart_read_file short_record_file =
     Inr \<lparr>records = [[5, 0]], string_block = [], field_count = 2, record_size = 4\<rparr>"
    by (simp add: smart_read_file_def unpack_header_def word_at_def short_record_file_def
        WDBC_def read_records_unfold read_fields_def upt_conv_Cons)
  have g: "gd_read_file short_record_file =
     Inr \<lparr>records = [[5, 0]], string_block = [], field_count = 2, record_size = 4,
          record_count = 1\<rparr>"
    by (simp add: gd_read_file_def unpack_header_def word_at_def short_record_file_def
        WDBC_def read_records_unfold read_fields_def upt_conv_Cons)
  note c = record_width_invariant [OF h]
  show ?thesis
    by (intro conjI h s g c [THEN conjunct1] c [THEN conjunct2])
qed

subsection \<open>The strict reader of \<^verbatim>\<open>extract_spells.py\<close>\<close>

lemma unpack_header_short:
  "length file < 20 \<Longrightarrow> unpack_header (take 20 file) = Inl StructError"
  by (simp add: unpack_header_def)

lemma es_read_records_unfold:
  "es_read_records n fc rs f =
     (if n = 0 then Inr ([], f)
      else (case unpack_words fc (take rs f) of
              Inl e \<Rightarrow> Inl e
            | Inr rec \<Rightarrow>
                (case es_read_records (n - 1) fc rs (drop rs f) of
                   Inl e \<Rightarrow> Inl e
                 | Inr (recs, f'') \<Rightarrow> Inr (rec # recs, f''))))"
  by (cases n) (auto simp: Let_def split: sum.splits)

lemma es_read_records_error:
  "es_read_records n fc rs f = Inl e \<Longrightarrow> e = StructError"
  by (induction n arbitrary: f)
     (auto simp: Let_def unpack_words_def split: sum.splits if_splits prod.splits)

lemma word_at_nth:
  assumes "k + 4 \<le> length f"
  shows "word_at f k = unat (f ! k) + 256 * unat (f ! (k + 1)) + 65536 * unat (f ! (k + 2))
                         + 16777216 * unat (f ! (k + 3))"
proof -
  from assms have "take 4 (drop k f) = [f ! k, f ! (k + 1), f ! (k + 2), f ! (k + 3)]"
    by (simp add: numeral_eq_Suc take_Suc_conv_app_nth add.commute)
  then show ?thesis by (simp add: word_at_def)
qed

lemma read_records_rest:
  "read_records n fc rs f = (recs, f') \<Longrightarrow> f' = drop (n * rs) f"
proof (induction n arbitrary: f recs f')
  case 0
  then show ?case by simp
next
  case (Suc n)
  show ?case
  proof (cases "length f < rs")
    case True
    then have d: "drop (Suc n * rs) f = []" "drop rs f = []" by simp_all
    from True Suc.prems have "f' = drop rs f"
      by (auto simp: Let_def split: if_splits)
    with d show ?thesis by simp
  next
    case False
    then have t: "length (take rs f) = rs" by simp
    obtain recs0 f0 where r0: "read_records n fc rs (drop rs f) = (recs0, f0)"
      by (cases "read_records n fc rs (drop rs f)")
    with Suc.prems False have "f' = f0" by (auto simp: Let_def split: if_splits)
    with Suc.IH [OF r0] show ?thesis by (simp add: add.commute)
  qed
qed

lemma es_read_records_rest:
  "es_read_records n fc rs f = Inr (recs, f') \<Longrightarrow> f' = drop (n * rs) f"
proof (induction n arbitrary: f recs f')
  case 0
  then show ?case by simp
next
  case (Suc n)
  from Suc.prems obtain recs0 f0 where r0: "es_read_records n fc rs (drop rs f) = Inr (recs0, f0)"
    and "f' = f0"
    by (auto simp: Let_def split: sum.splits)
  with Suc.IH [OF r0] show ?case by (simp add: add.commute)
qed

text \<open>
  Claim C5 (header validation), as amended. Both readers fail with \<^verbatim>\<open>ValueError\<close>, their
  format error, exactly when the first four bytes are not \<^verbatim>\<open>WDBC\<close>, provided the file
  holds the 20 bytes of the preamble (a shorter file makes \<^verbatim>\<open>struct.unpack\<close> raise
  \<^verbatim>\<open>struct.error\<close>). The four counts are decoded little-endian. Nothing compares the
  declared sizes with the length of the file: the heap of a reader that is returned is
  what the file holds after the declared records, up to the declared heap size, so a
  heap shorter than declared is read as far as it goes.
\<close>

theorem header_validation:
  "(length file < 20 \<longrightarrow>
      smart_read_file file = Inl StructError \<and> es_read_file file = Inl StructError) \<and>
   (20 \<le> length file \<longrightarrow>
      unpack_header (take 20 file) =
        Inr (take 4 file, word_at file 4, word_at file 8, word_at file 12, word_at file 16) \<and>
      (smart_read_file file = Inl ValueError \<longleftrightarrow> take 4 file \<noteq> WDBC) \<and>
      (es_read_file file = Inl ValueError \<longleftrightarrow> take 4 file \<noteq> WDBC) \<and>
      (\<forall>k \<in> {4, 8, 12, 16}.
         word_at file k = unat (file ! k) + 256 * unat (file ! (k + 1))
                            + 65536 * unat (file ! (k + 2)) + 16777216 * unat (file ! (k + 3))) \<and>
      (take 4 file = WDBC \<longrightarrow>
         (\<exists>r. smart_read_file file = Inr r \<and>
              string_block r =
                take (word_at file 16) (drop (20 + word_at file 4 * word_at file 12) file))) \<and>
      (\<forall>r. es_read_file file = Inr r \<longrightarrow>
         string_block r =
           take (word_at file 16) (drop (20 + word_at file 4 * word_at file 12) file)))"
proof (intro conjI impI allI)
  assume "length file < 20"
  then show "smart_read_file file = Inl StructError" "es_read_file file = Inl StructError"
    by (simp_all add: smart_read_file_def es_read_file_def unpack_header_def)
next
  assume l: "20 \<le> length file"
  then show "unpack_header (take 20 file) =
        Inr (take 4 file, word_at file 4, word_at file 8, word_at file 12, word_at file 16)"
    by (rule unpack_header_valid)
  show "smart_read_file file = Inl ValueError \<longleftrightarrow> take 4 file \<noteq> WDBC"
    using l by (simp add: smart_read_file_def unpack_header_valid split: prod.splits)
  show "es_read_file file = Inl ValueError \<longleftrightarrow> take 4 file \<noteq> WDBC"
    using l es_read_records_error [of "word_at file 4" "word_at file 8" "word_at file 12" "drop 20 file"]
    by (auto simp: es_read_file_def unpack_header_valid split: prod.splits sum.splits)
  show "\<forall>k \<in> {4, 8, 12, 16}.
         word_at file k = unat (file ! k) + 256 * unat (file ! (k + 1))
                            + 65536 * unat (file ! (k + 2)) + 16777216 * unat (file ! (k + 3))"
    using l by (simp add: word_at_nth)
  {
    assume t: "take 4 file = WDBC"
    obtain recs f' where rr:
      "read_records (word_at file 4) (word_at file 8) (word_at file 12) (drop 20 file) = (recs, f')"
      by (cases "read_records (word_at file 4) (word_at file 8) (word_at file 12) (drop 20 file)")
    from read_records_rest [OF rr]
    have f': "f' = drop (20 + word_at file 4 * word_at file 12) file"
      by (simp add: add.commute)
    have "smart_read_file file =
             Inr \<lparr>records = recs, string_block = take (word_at file 16) f',
                  field_count = word_at file 8, record_size = word_at file 12\<rparr>"
      using l t rr by (simp add: smart_read_file_def unpack_header_valid)
    with f' show "\<exists>r. smart_read_file file = Inr r \<and>
              string_block r =
                take (word_at file 16) (drop (20 + word_at file 4 * word_at file 12) file)"
      by simp
  }
  {
    fix r assume e: "es_read_file file = Inr r"
    with l obtain recs f' where rr:
      "es_read_records (word_at file 4) (word_at file 8) (word_at file 12) (drop 20 file) =
         Inr (recs, f')"
      and sb: "string_block r = take (word_at file 16) f'"
      by (auto simp: es_read_file_def unpack_header_valid split: if_splits sum.splits prod.splits)
    from es_read_records_rest [OF rr] sb
    show "string_block r =
           take (word_at file 16) (drop (20 + word_at file 4 * word_at file 12) file)"
      by (simp add: add.commute)
  }
qed

theorem header_validation_witness:
  "20 \<le> length truncated_file \<and> take 4 truncated_file = WDBC \<and>
   unpack_header (take 20 truncated_file) = Inr (WDBC, 2, 1, 4, 0) \<and>
   smart_read_file truncated_file \<noteq> Inl ValueError \<and>
   es_read_file truncated_file \<noteq> Inl ValueError \<and>
   20 \<le> length bad_tag_file \<and> take 4 bad_tag_file \<noteq> WDBC \<and>
   smart_read_file bad_tag_file = Inl ValueError \<and>
   es_read_file bad_tag_file = Inl ValueError \<and>
   length (take 7 bad_tag_file) < 20 \<and>
   smart_read_file (take 7 bad_tag_file) = Inl StructError \<and>
   es_read_file (take 7 bad_tag_file) = Inl StructError \<and>
   20 \<le> length short_heap_file \<and> take 4 short_heap_file = WDBC \<and>
   unpack_header (take 20 short_heap_file) = Inr (WDBC, 1, 1, 4, 10) \<and>
   smart_read_file short_heap_file =
     Inr \<lparr>records = [[7]], string_block = [0x41, 0x42, 0], field_count = 1, record_size = 4\<rparr> \<and>
   es_read_file short_heap_file =
     Inr \<lparr>records = [[7]], string_block = [0x41, 0x42, 0], field_count = 1,
          string_cache = Map.empty\<rparr> \<and>
   take (word_at short_heap_file 16)
     (drop (20 + word_at short_heap_file 4 * word_at short_heap_file 12) short_heap_file) =
     [0x41, 0x42, 0]"
proof -
  have h: "20 \<le> length truncated_file" "take 4 truncated_file = WDBC"
     "20 \<le> length bad_tag_file" "take 4 bad_tag_file \<noteq> WDBC"
     "length (take 7 bad_tag_file) < 20"
     "20 \<le> length short_heap_file" "take 4 short_heap_file = WDBC"
    by (simp_all add: truncated_file_def bad_tag_file_def short_heap_file_def WDBC_def)
  have w: "word_at truncated_file 4 = 2" "word_at truncated_file 8 = 1"
      "word_at truncated_file 12 = 4" "word_at truncated_file 16 = 0"
      "word_at short_heap_file 4 = 1" "word_at short_heap_file 8 = 1"
      "word_at short_heap_file 12 = 4" "word_at short_heap_file 16 = 10"
    by (simp_all add: truncated_file_def short_heap_file_def word_at_def)
  have s: "smart_read_file short_heap_file =
     Inr \<lparr>records = [[7]], string_block = [0x41, 0x42, 0], field_count = 1, record_size = 4\<rparr>"
    "es_read_file short_heap_file =
     Inr \<lparr>records = [[7]], string_block = [0x41, 0x42, 0], field_count = 1,
          string_cache = Map.empty\<rparr>"
    by (simp_all add: short_heap_file_def WDBC_def unpack_header_def word_at_def
        smart_read_file_def es_read_file_def es_read_records_unfold read_records_unfold
        unpack_words_def read_fields_def upt_conv_Cons)
  have d: "take (word_at short_heap_file 16)
     (drop (20 + word_at short_heap_file 4 * word_at short_heap_file 12) short_heap_file) =
     [0x41, 0x42, 0]"
    unfolding w by (simp add: short_heap_file_def)
  show ?thesis
    using header_validation [of truncated_file] header_validation [of bad_tag_file]
      header_validation [of "take 7 bad_tag_file"] header_validation [of short_heap_file] h w s d
    by simp
qed

text \<open>The claim as stated fails: a header that declares a heap of ten bytes, with no byte
  after it, is accepted by both readers.\<close>

theorem oversized_heap_accepted:
  "take 4 oversized_file = WDBC \<and> length oversized_file = 20 \<and>
   unpack_header (take 20 oversized_file) = Inr (WDBC, 0, 0, 0, 10) \<and>
   smart_read_file oversized_file =
     Inr \<lparr>records = [], string_block = [], field_count = 0, record_size = 0\<rparr> \<and>
   es_read_file oversized_file =
     Inr \<lparr>records = [], string_block = [], field_count = 0, string_cache = Map.empty\<rparr>"
  by (simp add: oversized_file_def WDBC_def unpack_header_def word_at_def smart_read_file_def
      es_read_file_def)

text \<open>
  Claim C6 (truncation tolerance) holds of the reader of \<^verbatim>\<open>extract_spells_smart.py\<close>,
  which leaves the loop on a short read, and fails in \<^verbatim>\<open>extract_spells.py\<close>, which unpacks
  the short slice: on a file cut off in its second record the first returns the one
  complete record, the second raises \<^verbatim>\<open>struct.error\<close>.
\<close>

theorem truncated_record_raises:
  "es_read_file truncated_file = Inl StructError \<and>
   smart_read_file truncated_file =
     Inr \<lparr>records = [[7]], string_block = [], field_count = 1, record_size = 4\<rparr>"
  by (simp add: truncated_file_def WDBC_def unpack_header_def word_at_def smart_read_file_def
      es_read_file_def es_read_records_unfold read_records_unfold unpack_words_def
      read_fields_def upt_conv_Cons)


subsection \<open>Resolving strings\<close>

lemma decode_ignore_Nil [simp]: "decode_ignore [] = []"
  by (simp add: decode_ignore_def)

lemma find_null_no_terminator:
  assumes "0 \<le> off" and "0 \<notin> set (drop (nat off) sb)"
  shows "find_null sb off = -1"
proof -
  have t: "takeWhile (\<lambda>y. y \<noteq> 0) (drop (nat off) sb) = drop (nat off) sb"
    by (rule takeWhile_eq_all_conv [THEN iffD2]) (use assms in auto)
  have "length (takeWhile (\<lambda>y. y \<noteq> 0) (drop (nat off) sb)) = length sb - nat off"
    by (simp only: t length_drop)
  with assms(1) show ?thesis
    by (simp add: find_null_def Let_def)
qed

lemma find_null_at_null:
  "0 \<le> off \<Longrightarrow> nat off < length sb \<Longrightarrow> sb ! nat off = 0 \<Longrightarrow> find_null sb off = off"
  by (simp add: find_null_def Let_def hd_drop_conv_nth takeWhile_eq_Nil_iff drop_eq_Nil
      flip: Cons_nth_drop_Suc)

lemma py_slice_empty [simp]: "py_slice xs i i = []"
  by (simp add: py_slice_def)

lemma smart_gd_get_string: "gd_get_string sb off = smart_get_string sb off"
  by (simp add: gd_get_string_def smart_get_string_def Let_def)

lemma es_get_string_pure:
  assumes "cache_ok r"
  shows "fst (es_get_string r off) =
           (if off < 0 then [] else smart_get_string (string_block r) off)"
proof (cases "string_cache r off")
  case None
  then show ?thesis
    by (simp add: es_get_string_def smart_get_string_def Let_def)
next
  case (Some s)
  with assms have "0 \<le> off \<and> s = smart_get_string (string_block r) off"
    unfolding cache_ok_def by blast
  with Some show ?thesis by (simp add: es_get_string_def)
qed

lemma es_get_string_cache_ok:
  assumes "cache_ok r"
  shows "cache_ok (snd (es_get_string r off))"
proof (cases "string_cache r off")
  case (Some s)
  with assms show ?thesis by (simp add: es_get_string_def)
next
  case None
  show ?thesis
  proof (cases "int (length (string_block r)) \<le> off \<or> off < 0 \<or>
                find_null (string_block r) off = -1")
    case True
    with None assms show ?thesis by (auto simp: es_get_string_def Let_def)
  next
    case False
    define res where "res = decode_ignore (py_slice (string_block r) off
                               (find_null (string_block r) off))"
    from False None have e: "snd (es_get_string r off) =
        r\<lparr>string_cache := (string_cache r)(off \<mapsto> res)\<rparr>"
      by (simp add: es_get_string_def Let_def res_def)
    from False have p: "0 \<le> off" "res = smart_get_string (string_block r) off"
      by (simp_all add: smart_get_string_def Let_def res_def)
    show ?thesis
      unfolding e cache_ok_def
    proof (intro allI impI)
      fix off' s
      assume "string_cache (r\<lparr>string_cache := (string_cache r)(off \<mapsto> res)\<rparr>) off' = Some s"
      then have "(off' = off \<and> s = res) \<or> string_cache r off' = Some s"
        by (auto split: if_splits)
      then show "0 \<le> off' \<and>
          s = smart_get_string
                (string_block (r\<lparr>string_cache := (string_cache r)(off \<mapsto> res)\<rparr>)) off'"
        using p assms unfolding cache_ok_def by auto
    qed
  qed
qed

lemma es_get_string_frame:
  "string_block (snd (es_get_string r off)) = string_block r \<and>
   records (snd (es_get_string r off)) = records r \<and>
   field_count (snd (es_get_string r off)) = field_count r"
  by (auto simp: es_get_string_def Let_def split: option.splits)

lemma es_read_file_cache_ok: "es_read_file file = Inr r \<Longrightarrow> cache_ok r"
  by (auto simp: es_read_file_def cache_ok_def split: sum.splits prod.splits if_splits)

lemma smart_get_string_past_end: "int (length sb) \<le> off \<Longrightarrow> smart_get_string sb off = []"
  by (simp add: smart_get_string_def)

lemma smart_get_string_no_terminator:
  "0 \<le> off \<Longrightarrow> 0 \<notin> set (drop (nat off) sb) \<Longrightarrow> smart_get_string sb off = []"
  by (simp add: smart_get_string_def find_null_no_terminator)

lemma smart_get_string_at_null:
  "0 \<le> off \<Longrightarrow> nat off < length sb \<Longrightarrow> sb ! nat off = 0 \<Longrightarrow> smart_get_string sb off = []"
  by (simp add: smart_get_string_def find_null_at_null Let_def)

text \<open>
  Claim C2 (lenient resolution), as amended. In both \<^verbatim>\<open>get_string\<close> functions, an offset
  at or past the end of the heap, and an offset with no null byte at or after it, resolve
  to the empty string. Offset 0 is not a special case: it resolves to the empty string
  when the heap is empty, starts with a null byte or holds no null byte. The functions
  return a string in every case, so nothing is raised.
\<close>

theorem lenient_resolution:
  assumes "cache_ok r"
  shows "(string_block r = [] \<or> hd (string_block r) = 0 \<or> 0 \<notin> set (string_block r) \<longrightarrow>
            fst (es_get_string r 0) = [] \<and> smart_get_string (string_block r) 0 = []) \<and>
         (int (length (string_block r)) \<le> offset \<longrightarrow>
            fst (es_get_string r offset) = [] \<and> smart_get_string (string_block r) offset = []) \<and>
         (0 \<le> offset \<and> 0 \<notin> set (drop (nat offset) (string_block r)) \<longrightarrow>
            fst (es_get_string r offset) = [] \<and> smart_get_string (string_block r) offset = [])"
proof (intro conjI impI)
  assume a: "string_block r = [] \<or> hd (string_block r) = 0 \<or> 0 \<notin> set (string_block r)"
  show s0: "smart_get_string (string_block r) 0 = []"
  proof (cases "string_block r = []")
    case True
    then show ?thesis by (simp add: smart_get_string_past_end)
  next
    case False
    with a have "hd (string_block r) = 0 \<or> 0 \<notin> set (string_block r)" by simp
    then show ?thesis
    proof
      assume "hd (string_block r) = 0"
      with False show ?thesis
        using smart_get_string_at_null [of 0 "string_block r"] by (simp add: hd_conv_nth)
    next
      assume "0 \<notin> set (string_block r)"
      then show ?thesis using smart_get_string_no_terminator [of 0 "string_block r"] by simp
    qed
  qed
  show "fst (es_get_string r 0) = []"
    using assms s0 by (simp add: es_get_string_pure)
next
  assume a: "int (length (string_block r)) \<le> offset"
  then show s1: "smart_get_string (string_block r) offset = []"
    by (rule smart_get_string_past_end)
  show "fst (es_get_string r offset) = []"
    using assms s1 by (simp add: es_get_string_pure)
next
  assume a: "0 \<le> offset \<and> 0 \<notin> set (drop (nat offset) (string_block r))"
  then show s2: "smart_get_string (string_block r) offset = []"
    by (simp add: smart_get_string_no_terminator)
  show "fst (es_get_string r offset) = []"
    using assms s2 by (simp add: es_get_string_pure)
qed


theorem lenient_resolution_witness:
  "cache_ok open_heap_reader \<and> hd (string_block open_heap_reader) = 0 \<and>
   fst (es_get_string open_heap_reader 0) = [] \<and>
   smart_get_string (string_block open_heap_reader) 0 = [] \<and>
   int (length (string_block open_heap_reader)) \<le> 9 \<and>
   fst (es_get_string open_heap_reader 9) = [] \<and>
   smart_get_string (string_block open_heap_reader) 9 = [] \<and>
   0 \<notin> set (drop (nat 4) (string_block open_heap_reader)) \<and>
   fst (es_get_string open_heap_reader 4) = [] \<and>
   smart_get_string (string_block open_heap_reader) 4 = []"
proof -
  have c: "cache_ok open_heap_reader"
    by (simp add: cache_ok_def open_heap_reader_def)
  have h: "hd (string_block open_heap_reader) = 0"
    "int (length (string_block open_heap_reader)) \<le> 9"
    "0 \<notin> set (drop (nat 4) (string_block open_heap_reader))"
    by (simp_all add: open_heap_reader_def)
  show ?thesis
    using lenient_resolution [OF c, of 9] lenient_resolution [OF c, of 4] c h
    by simp
qed

text \<open>The claim as stated fails on the heap of the specification's own scenario, where
  offset 0 resolves to \<^verbatim>\<open>AB\<close>.\<close>

theorem resolve_zero_nonempty:
  "es_read_file scenario_file = Inr scenario_reader \<and>
   fst (es_get_string scenario_reader 0) = [0x41, 0x42] \<and>
   smart_get_string (string_block scenario_reader) 0 = [0x41, 0x42]"
  by (simp add: scenario_file_def scenario_heap_def scenario_reader_def WDBC_def
      unpack_header_def word_at_def es_read_file_def es_read_records_unfold unpack_words_def
      upt_conv_Cons es_get_string_def smart_get_string_def find_null_def py_slice_def
      slice_index_def decode_ignore_def Let_def)

subsection \<open>Round trip\<close>

lemma div_4096_64: "(c::nat) div 4096 * 64 + c div 64 mod 64 = c div 64"
proof -
  have "c div 4096 = c div 64 div 64" by (simp add: div_mult2_eq [symmetric])
  then show ?thesis by simp
qed

lemma div_262144_64: "(c::nat) div 262144 * 64 + c div 4096 mod 64 = c div 4096"
proof -
  have "c div 262144 = c div 4096 div 64" by (simp add: div_mult2_eq [symmetric])
  then show ?thesis by simp
qed

lemma two_byte_bounds:
  "0x80 \<le> (c::nat) \<Longrightarrow> c < 0x800 \<Longrightarrow> 2 \<le> c div 64 \<and> c div 64 < 32"
  by arith

lemma three_byte_lead: "(c::nat) < 0x10000 \<Longrightarrow> c div 4096 < 16"
  by arith

lemma three_byte_low:
  assumes "0x800 \<le> (c::nat)" and "c div 4096 = 0"
  shows "32 \<le> c div 64 mod 64"
proof -
  from assms(1) have "32 \<le> c div 64" by arith
  with div_4096_64 [of c] assms(2) show ?thesis by simp
qed

lemma three_byte_surrogate:
  assumes "c div 4096 = 13" and "(c::nat) < 0xD800"
  shows "c div 64 mod 64 < 32"
proof -
  from assms(2) have "c div 64 < 864" by arith
  with div_4096_64 [of c] assms(1) show ?thesis by simp
qed

lemma three_byte_high:
  assumes "c div 4096 = 13" and "0xE000 \<le> (c::nat)"
  shows False
proof -
  from assms(2) have "14 \<le> c div 4096" by arith
  with assms(1) show False by simp
qed

lemma four_byte_lead: "(c::nat) < 0x110000 \<Longrightarrow> c div 262144 < 5"
  by arith

lemma four_byte_low:
  assumes "0x10000 \<le> (c::nat)" and "c div 262144 = 0"
  shows "16 \<le> c div 4096 mod 64"
proof -
  from assms(1) have "16 \<le> c div 4096" by arith
  with div_262144_64 [of c] assms(2) show ?thesis by simp
qed

lemma four_byte_top:
  assumes "(c::nat) < 0x110000" and "c div 262144 = 4"
  shows "c div 4096 mod 64 < 16"
proof -
  from assms(1) have "c div 4096 < 272" by arith
  with div_262144_64 [of c] assms(2) show ?thesis by simp
qed


lemma utf8_decode_two:
  "0xC2 \<le> b0 \<Longrightarrow> b0 < 0xE0 \<Longrightarrow> is_cont b1 \<Longrightarrow>
   utf8_decode (b0 # b1 # rest) = ((b0 - 0xC0) * 64 + (b1 - 0x80)) # utf8_decode rest"
  by simp

lemma utf8_decode_three:
  assumes "0xE0 \<le> b0" "b0 < 0xF0" "is_cont b1" "is_cont b2"
    and "\<not> (b0 = 0xE0 \<and> b1 < 0xA0)" "\<not> (b0 = 0xED \<and> 0xA0 \<le> b1)"
  shows "utf8_decode (b0 # b1 # b2 # rest) =
     (((b0 - 0xE0) * 64 + (b1 - 0x80)) * 64 + (b2 - 0x80)) # utf8_decode rest"
proof -
  have c: "(b0 = 0xE0 \<and> b1 < 0xA0 \<or> b0 = 0xED \<and> 0xA0 \<le> b1) = False"
    using assms(5,6) by blast
  from assms(1-4) show ?thesis
    by (simp add: c split del: if_split)
qed

lemma utf8_decode_four:
  assumes "0xF0 \<le> b0" "b0 < 0xF5" "is_cont b1" "is_cont b2" "is_cont b3"
    and "\<not> (b0 = 0xF0 \<and> b1 < 0x90)" "\<not> (b0 = 0xF4 \<and> 0x90 \<le> b1)"
  shows "utf8_decode (b0 # b1 # b2 # b3 # rest) =
     ((((b0 - 0xF0) * 64 + (b1 - 0x80)) * 64 + (b2 - 0x80)) * 64 + (b3 - 0x80))
       # utf8_decode rest"
proof -
  have c: "(b0 = 0xF0 \<and> b1 < 0x90 \<or> b0 = 0xF4 \<and> 0x90 \<le> b1) = False"
    using assms(6,7) by blast
  from assms(1-5) show ?thesis
    by (simp add: c split del: if_split)
qed

lemma unat_byte: "b < 256 \<Longrightarrow> unat (of_nat b :: byte) = b"
  by (simp add: unat_of_nat)

lemma map_unat_bytes:
  "\<forall>b \<in> set ns. b < 256 \<Longrightarrow> map unat (map (of_nat :: nat \<Rightarrow> byte) ns) = ns"
  by (induction ns) (simp_all add: unat_byte)

lemma is_cont_low6 [simp]: "is_cont (0x80 + n mod 64)"
  by (simp add: is_cont_def)

lemma utf8_decode_encode_cp:
  assumes "scalar_value c"
  shows "utf8_decode (utf8_encode_cp c @ rest) = c # utf8_decode rest"
proof -
  consider "c < 0x80" | "0x80 \<le> c" "c < 0x800" | "0x800 \<le> c" "c < 0x10000"
    | "0x10000 \<le> c" "c < 0x110000"
    using assms unfolding scalar_value_def by linarith
  then show ?thesis
  proof cases
    case 1
    then show ?thesis by (simp add: utf8_encode_cp_def)
  next
    case 2
    have e: "utf8_encode_cp c = [0xC0 + c div 64, 0x80 + c mod 64]"
      using 2 by (simp add: utf8_encode_cp_def)
    have "utf8_decode ((0xC0 + c div 64) # (0x80 + c mod 64) # rest) =
            ((0xC0 + c div 64 - 0xC0) * 64 + (0x80 + c mod 64 - 0x80)) # utf8_decode rest"
      using two_byte_bounds [OF 2] by (intro utf8_decode_two) simp_all
    then show ?thesis by (simp add: e)
  next
    case 3
    have e: "utf8_encode_cp c = [0xE0 + c div 4096, 0x80 + c div 64 mod 64, 0x80 + c mod 64]"
      using 3 by (simp add: utf8_encode_cp_def)
    have b1: "\<not> (0xE0 + c div 4096 = 0xE0 \<and> 0x80 + c div 64 mod 64 < 0xA0)"
      using three_byte_low [OF 3(1)] by auto
    have b2: "\<not> (0xE0 + c div 4096 = 0xED \<and> 0xA0 \<le> 0x80 + c div 64 mod 64)"
    proof
      assume a: "0xE0 + c div 4096 = 0xED \<and> 0xA0 \<le> 0x80 + c div 64 mod 64"
      then have a': "c div 4096 = 13" "32 \<le> c div 64 mod 64" by simp_all
      show False
      proof (cases "c < 0xD800")
        case True
        with a' three_byte_surrogate [of c] show False by simp
      next
        case False
        with assms have "0xE000 \<le> c" by (simp add: scalar_value_def)
        with a' three_byte_high [of c] show False by simp
      qed
    qed
    have "utf8_decode ((0xE0 + c div 4096) # (0x80 + c div 64 mod 64) # (0x80 + c mod 64) # rest) =
            (((0xE0 + c div 4096 - 0xE0) * 64 + (0x80 + c div 64 mod 64 - 0x80)) * 64
               + (0x80 + c mod 64 - 0x80)) # utf8_decode rest"
      using three_byte_lead [OF 3(2)] b1 b2 by (intro utf8_decode_three) simp_all
    then show ?thesis by (simp add: e div_4096_64)
  next
    case 4
    have e: "utf8_encode_cp c =
               [0xF0 + c div 262144, 0x80 + c div 4096 mod 64, 0x80 + c div 64 mod 64,
                0x80 + c mod 64]"
      using 4 by (simp add: utf8_encode_cp_def)
    have b1: "\<not> (0xF0 + c div 262144 = 0xF0 \<and> 0x80 + c div 4096 mod 64 < 0x90)"
      using four_byte_low [OF 4(1)] by auto
    have b2: "\<not> (0xF0 + c div 262144 = 0xF4 \<and> 0x90 \<le> 0x80 + c div 4096 mod 64)"
      using four_byte_top [OF 4(2)] by auto
    have "utf8_decode ((0xF0 + c div 262144) # (0x80 + c div 4096 mod 64)
              # (0x80 + c div 64 mod 64) # (0x80 + c mod 64) # rest) =
            ((((0xF0 + c div 262144 - 0xF0) * 64 + (0x80 + c div 4096 mod 64 - 0x80)) * 64
                + (0x80 + c div 64 mod 64 - 0x80)) * 64 + (0x80 + c mod 64 - 0x80))
              # utf8_decode rest"
      using four_byte_lead [OF 4(2)] b1 b2 by (intro utf8_decode_four) simp_all
    then show ?thesis by (simp add: e div_4096_64 div_262144_64)
  qed
qed

lemma utf8_encode_cp_bytes: "scalar_value c \<Longrightarrow> b \<in> set (utf8_encode_cp c) \<Longrightarrow> b < 256"
  using four_byte_lead [of c] three_byte_lead [of c] two_byte_bounds [of c]
  by (auto simp: utf8_encode_cp_def scalar_value_def split: if_splits)

lemma utf8_encode_cp_nonzero: "c \<noteq> 0 \<Longrightarrow> b \<in> set (utf8_encode_cp c) \<Longrightarrow> b \<noteq> 0"
  by (auto simp: utf8_encode_cp_def split: if_splits)

lemma utf8_decode_encode:
  "\<forall>c \<in> set s. scalar_value c \<Longrightarrow>
   utf8_decode (concat (map utf8_encode_cp s)) = s"
  by (induction s) (simp_all add: utf8_decode_encode_cp)

lemma decode_ignore_encode:
  assumes "\<forall>c \<in> set s. scalar_value c"
  shows "decode_ignore (utf8_encode s) = s"
proof -
  have "\<forall>b \<in> set (concat (map utf8_encode_cp s)). b < 256"
    using assms utf8_encode_cp_bytes by auto
  then have "map unat (map (of_nat :: nat \<Rightarrow> byte) (concat (map utf8_encode_cp s))) =
             concat (map utf8_encode_cp s)"
    by (rule map_unat_bytes)
  with assms show ?thesis
    by (simp add: decode_ignore_def utf8_encode_def utf8_decode_encode)
qed

lemma utf8_encode_no_null:
  assumes "\<forall>c \<in> set s. scalar_value c \<and> c \<noteq> 0"
  shows "0 \<notin> set (utf8_encode s)"
proof
  assume "0 \<in> set (utf8_encode s)"
  then obtain c b where c: "c \<in> set s" "b \<in> set (utf8_encode_cp c)" "(of_nat b :: byte) = 0"
    by (auto simp: utf8_encode_def)
  with assms have "b < 256" "b \<noteq> 0"
    using utf8_encode_cp_bytes utf8_encode_cp_nonzero by blast+
  with c(3) show False
    using unat_byte [of b] by simp
qed

lemma le32_value:
  assumes "w < 2 ^ 32"
  shows "w mod 256 + 256 * (w div 256 mod 256) + 65536 * (w div 65536 mod 256)
           + 16777216 * (w div 16777216 mod 256) = (w::nat)"
proof -
  have a: "w div 65536 = w div 256 div 256" "w div 16777216 = w div 256 div 256 div 256"
    by (simp_all add: div_mult2_eq [symmetric])
  from assms have "w div 256 div 256 div 256 < 256"
    by (simp add: div_mult2_eq [symmetric])
  then have "w div 256 div 256 div 256 mod 256 = w div 256 div 256 div 256" by simp
  then show ?thesis
    unfolding a
    using div_mult_mod_eq [of w 256] div_mult_mod_eq [of "w div 256" 256]
      div_mult_mod_eq [of "w div 256 div 256" 256]
    by linarith
qed

lemma length_le32_bytes [simp]: "length (le32_bytes w) = 4"
  by (simp add: le32_bytes_def)

lemma unpack_I_le32: "w < 2 ^ 32 \<Longrightarrow> unpack_I (le32_bytes w) = Inr w"
  using le32_value [of w] by (simp add: le32_bytes_def unat_of_nat)

lemma word_at_le32:
  "w < 2 ^ 32 \<Longrightarrow> n = length pre \<Longrightarrow> word_at (pre @ le32_bytes w @ rest) n = w"
  by (simp add: word_at_def unpack_I_le32)

lemma length_row_bytes [simp]: "length (row_bytes row) = 4 * length row"
  by (induction row) (simp_all add: row_bytes_def)

lemma drop_row_bytes: "drop (4 * j) (row_bytes row) = row_bytes (drop j row)"
proof (induction row arbitrary: j)
  case Nil
  then show ?case by (simp add: row_bytes_def)
next
  case (Cons w row)
  show ?case
  proof (cases j)
    case 0
    then show ?thesis by simp
  next
    case (Suc k)
    with Cons.IH [of k] show ?thesis by (simp add: row_bytes_def)
  qed
qed

lemma word_at_row_bytes:
  assumes "j < length row" and "\<forall>w \<in> set row. w < 2 ^ 32"
  shows "word_at (row_bytes row) (4 * j) = row ! j"
proof -
  from assms(1) have d: "drop j row = row ! j # drop (Suc j) row"
    by (simp add: Cons_nth_drop_Suc)
  from assms have w: "row ! j < 2 ^ 32" by simp
  have e: "drop (4 * j) (row_bytes row) =
             [] @ le32_bytes (row ! j) @ row_bytes (drop (Suc j) row)"
    by (simp only: drop_row_bytes d) (simp add: row_bytes_def)
  have "word_at (row_bytes row) (4 * j) = word_at (drop (4 * j) (row_bytes row)) 0"
    by (simp add: word_at_def)
  also have "\<dots> = row ! j"
    unfolding e using w by (intro word_at_le32) simp_all
  finally show ?thesis .
qed

lemma unpack_words_row_bytes:
  assumes "length row = fc" and "\<forall>w \<in> set row. w < 2 ^ 32"
  shows "unpack_words fc (row_bytes row) = Inr (map int row)"
proof -
  have "map (\<lambda>j. int (word_at (row_bytes row) (4 * j))) [0..<fc] = map int row"
    using assms by (auto simp: list_eq_iff_nth_eq word_at_row_bytes)
  with assms(1) show ?thesis by (simp add: unpack_words_def)
qed

lemma es_read_records_rows:
  assumes "\<forall>row \<in> set rows. length row = fc \<and> (\<forall>w \<in> set row. w < 2 ^ 32)"
  shows "es_read_records (length rows) fc (4 * fc) (concat (map row_bytes rows) @ rest) =
           Inr (map (map int) rows, rest)"
  using assms
proof (induction rows)
  case Nil
  then show ?case by simp
next
  case (Cons row rows)
  then have l: "length row = fc" and w: "\<forall>w \<in> set row. w < 2 ^ 32" by simp_all
  from l have t: "take (4 * fc) (row_bytes row @ concat (map row_bytes rows) @ rest) = row_bytes row"
    "drop (4 * fc) (row_bytes row @ concat (map row_bytes rows) @ rest) =
       concat (map row_bytes rows) @ rest"
    by simp_all
  from Cons have ih: "es_read_records (length rows) fc (4 * fc) (concat (map row_bytes rows) @ rest) =
           Inr (map (map int) rows, rest)" by simp
  show ?case
    by (simp add: Let_def t unpack_words_row_bytes [OF l w] ih del: take_append drop_append)
qed

lemma unpack_header_table:
  assumes "a < 2 ^ 32" "b < 2 ^ 32" "c < 2 ^ 32" "d < 2 ^ 32"
  shows "unpack_header (take 20 (WDBC @ le32_bytes a @ le32_bytes b @ le32_bytes c
            @ le32_bytes d @ rest)) = Inr (WDBC, a, b, c, d)"
proof -
  have t: "take 20 (WDBC @ le32_bytes a @ le32_bytes b @ le32_bytes c @ le32_bytes d @ rest) =
           WDBC @ le32_bytes a @ le32_bytes b @ le32_bytes c @ le32_bytes d"
    by (simp add: WDBC_def)
  have 1: "word_at (WDBC @ le32_bytes a @ le32_bytes b @ le32_bytes c @ le32_bytes d) 4 = a"
    using assms(1) by (intro word_at_le32) (simp_all add: WDBC_def)
  have 2: "word_at (WDBC @ le32_bytes a @ le32_bytes b @ le32_bytes c @ le32_bytes d) 8 = b"
    using word_at_le32 [OF assms(2), of 8 "WDBC @ le32_bytes a" "le32_bytes c @ le32_bytes d"]
    by (simp add: WDBC_def)
  have 3: "word_at (WDBC @ le32_bytes a @ le32_bytes b @ le32_bytes c @ le32_bytes d) 12 = c"
    using word_at_le32 [OF assms(3), of 12 "WDBC @ le32_bytes a @ le32_bytes b" "le32_bytes d"]
    by (simp add: WDBC_def)
  have 4: "word_at (WDBC @ le32_bytes a @ le32_bytes b @ le32_bytes c @ le32_bytes d) 16 = d"
    using word_at_le32 [OF assms(4), of 16 "WDBC @ le32_bytes a @ le32_bytes b @ le32_bytes c" "[]"]
    by (simp add: WDBC_def)
  show ?thesis
    unfolding t by (simp add: unpack_header_def 1 2 3 4) (simp add: WDBC_def)
qed

lemma es_read_file_table:
  assumes "\<forall>row \<in> set rows. length row = fc \<and> (\<forall>w \<in> set row. w < 2 ^ 32)"
    and "length rows < 2 ^ 32" and "4 * fc < 2 ^ 32" and "length heap < 2 ^ 32"
  shows "es_read_file (table_bytes fc rows heap) =
           Inr \<lparr>records = map (map int) rows, string_block = heap, field_count = fc,
                string_cache = Map.empty\<rparr>"
proof -
  from assms(3) have fc: "fc < 2 ^ 32" by simp
  have d: "drop 20 (table_bytes fc rows heap) = concat (map row_bytes rows) @ heap"
    by (simp add: table_bytes_def WDBC_def)
  have h: "unpack_header (take 20 (table_bytes fc rows heap)) =
             Inr (WDBC, length rows, fc, 4 * fc, length heap)"
    unfolding table_bytes_def
    by (rule unpack_header_table [OF assms(2) fc assms(3) assms(4)])
  show ?thesis
    unfolding es_read_file_def h d
    by (simp add: es_read_records_rows [OF assms(1)])
qed

lemma find_null_terminated:
  assumes "0 \<notin> set bs"
  shows "find_null (pre @ bs @ 0 # post) (int (length pre)) = int (length pre + length bs)"
proof -
  have "takeWhile (\<lambda>y. y \<noteq> 0) (bs @ 0 # post) = bs"
    using assms by (induction bs) auto
  then show ?thesis
    by (simp add: find_null_def Let_def)
qed

lemma py_slice_middle:
  "py_slice (pre @ bs @ post) (int (length pre)) (int (length pre + length bs)) = bs"
  by (simp add: py_slice_def slice_index_def Let_def)

lemma smart_get_string_written:
  assumes "\<forall>c \<in> set s. scalar_value c \<and> c \<noteq> 0"
  shows "smart_get_string (pre @ utf8_encode s @ 0 # post) (int (length pre)) = s"
proof -
  have n: "0 \<notin> set (utf8_encode s)" using assms by (rule utf8_encode_no_null)
  have d: "decode_ignore (utf8_encode s) = s" using assms by (simp add: decode_ignore_encode)
  show ?thesis
    using py_slice_middle [of pre "utf8_encode s" "0 # post"]
    by (simp add: smart_get_string_def find_null_terminated [OF n] Let_def d)
qed

lemma after_lookups_ok:
  "cache_ok r \<Longrightarrow>
   cache_ok (after_lookups r offs) \<and> string_block (after_lookups r offs) = string_block r \<and>
   records (after_lookups r offs) = records r"
proof (induction offs arbitrary: r)
  case Nil
  then show ?case by (simp add: after_lookups_def)
next
  case (Cons off offs)
  from Cons.prems have "cache_ok (snd (es_get_string r off))"
    by (rule es_get_string_cache_ok)
  from Cons.IH [OF this] show ?case
    using es_get_string_frame [of r off] by (simp add: after_lookups_def)
qed

text \<open>
  Claim C1 (round trip at the reader interface). Take \<open>fc\<close> fields, rows of \<open>fc\<close> words
  below \<open>2^32\<close> and a heap, with counts that fit the header's 32-bit fields, and write
  them in the layout of the format, each record in \<open>4 * fc\<close> bytes. Then \<^verbatim>\<open>DBCReader\<close> of
  \<^verbatim>\<open>extract_spells.py\<close> reads the buffer without error, \<^verbatim>\<open>records[i][j]\<close> is the word
  written at row \<open>i\<close>, field \<open>j\<close>, and wherever the heap holds the UTF-8 bytes of a
  string without null characters followed by a null byte, \<^verbatim>\<open>get_string\<close> at that offset
  returns the string, also after any number of earlier lookups have filled the cache.
\<close>

theorem round_trip:
  assumes "\<forall>row \<in> set rows. length row = fc \<and> (\<forall>w \<in> set row. w < 2 ^ 32)"
    and "length rows < 2 ^ 32" and "4 * fc < 2 ^ 32" and "length heap < 2 ^ 32"
  shows "\<exists>r. es_read_file (table_bytes fc rows heap) = Inr r \<and>
           (\<forall>i<length rows. \<forall>j<fc.
              \<exists>rec. py_index (records r) (int i) = Inr rec \<and>
                    py_index rec (int j) = Inr (int (rows ! i ! j))) \<and>
           (\<forall>pre s post offs.
              heap = pre @ utf8_encode s @ 0 # post \<and> (\<forall>c \<in> set s. scalar_value c \<and> c \<noteq> 0) \<longrightarrow>
              fst (es_get_string (after_lookups r offs) (int (length pre))) = s)"
proof -
  define r where "r = \<lparr>records = map (map int) rows, string_block = heap, field_count = fc,
                string_cache = Map.empty\<rparr>"
  have rd: "es_read_file (table_bytes fc rows heap) = Inr r"
    unfolding r_def using assms by (rule es_read_file_table)
  have ok: "cache_ok r" using rd by (rule es_read_file_cache_ok)
  have g: "\<exists>rec. py_index (records r) (int i) = Inr rec \<and>
                    py_index rec (int j) = Inr (int (rows ! i ! j))"
    if "i < length rows" "j < fc" for i j
  proof -
    from that assms(1) have "length (rows ! i) = fc" by simp
    with that show ?thesis by (simp add: r_def py_index_def)
  qed
  have s: "fst (es_get_string (after_lookups r offs) (int (length pre))) = s"
    if "heap = pre @ utf8_encode s @ 0 # post \<and> (\<forall>c \<in> set s. scalar_value c \<and> c \<noteq> 0)"
    for pre s post offs
  proof -
    from after_lookups_ok [OF ok, of offs]
    have a: "cache_ok (after_lookups r offs)" "string_block (after_lookups r offs) = heap"
      by (simp_all add: r_def)
    from that have "smart_get_string heap (int (length pre)) = s"
      using smart_get_string_written [of s pre post] by simp
    with a show ?thesis by (simp add: es_get_string_pure)
  qed
  from rd g s show ?thesis by blast
qed

theorem round_trip_witness:
  "table_bytes 3 [[5, 0, 0], [6, 4, 0]] scenario_heap = scenario_file \<and>
   es_read_file scenario_file = Inr scenario_reader \<and>
   py_index (records scenario_reader) 1 = Inr [6, 4, 0] \<and>
   py_index [6, 4, 0] 1 = Inr (4::int) \<and>
   scenario_heap = [0x41, 0x42, 0] @ utf8_encode [0x43, 0x44] @ 0 # [] \<and>
   fst (es_get_string scenario_reader 3) = [0x43, 0x44]"
proof -
  have h: "\<forall>row \<in> set [[5, 0, 0], [6, 4, 0::nat]]. length row = 3 \<and> (\<forall>w \<in> set row. w < 2 ^ 32)"
    "length [[5, 0, 0], [6, 4, 0::nat]] < 2 ^ 32" "4 * (3::nat) < 2 ^ 32"
    "length scenario_heap < 2 ^ 32"
    by (simp_all add: scenario_heap_def)
  have t: "table_bytes 3 [[5, 0, 0], [6, 4, 0]] scenario_heap = scenario_file"
    by (simp add: table_bytes_def scenario_file_def row_bytes_def le32_bytes_def WDBC_def
        scenario_heap_def)
  have e: "scenario_heap = [0x41, 0x42, 0] @ utf8_encode [0x43, 0x44] @ 0 # []"
    by (simp add: scenario_heap_def utf8_encode_def utf8_encode_cp_def)
  have v: "\<forall>c \<in> set [0x43, 0x44::nat]. scalar_value c \<and> c \<noteq> 0"
    by (simp add: scalar_value_def)
  from round_trip [OF h] obtain r where
    r: "es_read_file (table_bytes 3 [[5, 0, 0], [6, 4, 0]] scenario_heap) = Inr r"
    and g: "\<forall>i<length [[5, 0, 0], [6, 4, 0::nat]]. \<forall>j<3.
              \<exists>rec. py_index (records r) (int i) = Inr rec \<and>
                    py_index rec (int j) = Inr (int ([[5, 0, 0], [6, 4, 0]] ! i ! j))"
    and s: "\<forall>pre s post offs.
              scenario_heap = pre @ utf8_encode s @ 0 # post \<and>
                (\<forall>c \<in> set s. scalar_value c \<and> c \<noteq> 0) \<longrightarrow>
              fst (es_get_string (after_lookups r offs) (int (length pre))) = s"
    by blast
  have rr: "es_read_file scenario_file = Inr scenario_reader"
    by (simp add: scenario_file_def scenario_heap_def scenario_reader_def WDBC_def
      unpack_header_def word_at_def es_read_file_def es_read_records_unfold unpack_words_def
      upt_conv_Cons)
  with r t have req: "r = scenario_reader" by simp
  from s e v have "fst (es_get_string (after_lookups r []) (int (length [0x41, 0x42, 0::byte]))) = [0x43, 0x44]"
    by blast
  then have s3: "fst (es_get_string scenario_reader 3) = [0x43, 0x44]"
    by (simp add: req after_lookups_def)
  have "\<exists>rec. py_index (records r) (int 1) = Inr rec \<and>
                    py_index rec (int 1) = Inr (int ([[5, 0, 0], [6, 4, 0]] ! 1 ! 1))"
    using g [rule_format, of 1 1] by simp
  then have g1: "py_index (records scenario_reader) 1 = Inr [6, 4, 0]"
     "py_index [6, 4, 0] 1 = Inr (4::int)"
    by (simp_all add: req scenario_reader_def py_index_def)
  from t rr g1 e s3 show ?thesis by simp
qed

subsection \<open>Templating of descriptions\<close>















lemma decimal_nonempty: "decimal n \<noteq> []"
  by (subst decimal.simps) simp




end
